theory Spec2Isabelle
  imports Complex_Main "HOL-Library.Multiset" "HOL-Library.Sublist"
begin

section \<open>Employee attendance store: data model\<close>

text \<open>
  The stored entity of \<^verbatim>\<open>app.py\<close> is a Python dict with the keys \<^verbatim>\<open>id\<close>,
  \<^verbatim>\<open>name\<close>, \<^verbatim>\<open>department\<close>, \<^verbatim>\<open>attendance\<close>, \<^verbatim>\<open>total_days\<close>,
  \<^verbatim>\<open>attendance_percentage\<close> and \<^verbatim>\<open>hash_index\<close>. It is modelled as a record with one
  field per key; the key \<^verbatim>\<open>id\<close> is the field \<open>emp_id\<close> (the name the source gives the
  parsed id). Python integers are unbounded, so they are \<open>int\<close>. The percentage is a
  Python float; it is idealised as a rational number.
\<close>

record employee =
  emp_id :: int
  name :: string
  department :: string
  attendance :: int
  total_days :: int
  attendance_percentage :: rat
  hash_index :: int

datatype py_error = ZeroDivisionError | IndexError | TypeError | ValueError

section \<open>Python list indexing and the modulo operator\<close>

text \<open>
  \<^verbatim>\<open>xs[i]\<close> accepts \<open>-len xs \<le> i < len xs\<close>, a negative index counting from the end,
  and raises IndexError otherwise; \<open>norm_index\<close> is the position an index denotes. \<^verbatim>\<open>a % b\<close> raises ZeroDivisionError for \<open>b = 0\<close>; the
  result has the sign of the divisor, as \<open>mod\<close> on \<open>int\<close> has.
\<close>

definition norm_index :: "nat \<Rightarrow> int \<Rightarrow> py_error + nat" where
  "norm_index len i =
     (if 0 \<le> i \<and> i < int len then Inr (nat i)
      else if - int len \<le> i \<and> i < 0 then Inr (nat (int len + i))
      else Inl IndexError)"

definition list_get :: "'a list \<Rightarrow> int \<Rightarrow> py_error + 'a" where
  "list_get xs i =
     (case norm_index (length xs) i of Inl e \<Rightarrow> Inl e | Inr j \<Rightarrow> Inr (xs ! j))"

definition list_set :: "'a list \<Rightarrow> int \<Rightarrow> 'a \<Rightarrow> py_error + 'a list" where
  "list_set xs i v =
     (case norm_index (length xs) i of Inl e \<Rightarrow> Inl e | Inr j \<Rightarrow> Inr (xs[j := v]))"

definition py_mod :: "int \<Rightarrow> int \<Rightarrow> py_error + int" where
  "py_mod a b = (if b = 0 then Inl ZeroDivisionError else Inr (a mod b))"

definition py_range :: "int \<Rightarrow> int list" where
  "py_range n = map int [0..<nat n]"

section \<open>The hash table of \<^verbatim>\<open>utils/hashing.py\<close>\<close>

record hashtable =
  size_ht :: int
  table :: "employee option list"

definition HashTable_init :: "int \<Rightarrow> hashtable" where
  "HashTable_init sz = \<lparr>size_ht = sz, table = replicate (nat sz) None\<rparr>"

definition hash_function :: "hashtable \<Rightarrow> int \<Rightarrow> py_error + int" where
  "hash_function ht k = py_mod k (size_ht ht)"

text \<open>
  The body of \<^verbatim>\<open>for i in range(self.size)\<close> in \<^verbatim>\<open>insert\<close>, over the values of \<open>i\<close>
  still to come; the empty list is the code after the loop.
\<close>

definition store :: "hashtable \<Rightarrow> int \<Rightarrow> employee \<Rightarrow> py_error + (int \<times> hashtable)" where
  "store ht pos r =
     (case list_set (table ht) pos (Some r) of
        Inl e \<Rightarrow> Inl e
      | Inr t \<Rightarrow> Inr (pos, ht\<lparr>table := t\<rparr>))"

fun insert_loop :: "hashtable \<Rightarrow> employee \<Rightarrow> int \<Rightarrow> int list \<Rightarrow> py_error + (int \<times> hashtable)" where
  "insert_loop ht r idx [] = store ht idx r"
| "insert_loop ht r idx (i # rest) =
     (case py_mod (idx + i) (size_ht ht) of
        Inl e \<Rightarrow> Inl e
      | Inr pos \<Rightarrow>
          (case list_get (table ht) pos of
             Inl e \<Rightarrow> Inl e
           | Inr None \<Rightarrow> store ht pos r
           | Inr (Some slot) \<Rightarrow>
               if emp_id slot = emp_id r then store ht pos r
               else insert_loop ht r idx rest))"

definition insert_ht :: "hashtable \<Rightarrow> employee \<Rightarrow> py_error + (int \<times> hashtable)" where
  "insert_ht ht r =
     (case hash_function ht (emp_id r) of
        Inl e \<Rightarrow> Inl e
      | Inr idx \<Rightarrow> insert_loop ht r idx (py_range (size_ht ht)))"

text \<open>
  \<^verbatim>\<open>get\<close>: the trace entry \<^verbatim>\<open>{"index": pos, "slot": self.table[pos]}\<close> is the pair
  \<open>(pos, slot)\<close>; the trace is built in probe order.
\<close>

type_synonym trace = "(int \<times> employee option) list"

fun get_loop :: "hashtable \<Rightarrow> int \<Rightarrow> int \<Rightarrow> trace \<Rightarrow> int list \<Rightarrow> py_error + (employee option \<times> trace)" where
  "get_loop ht k idx tr [] = Inr (None, tr)"
| "get_loop ht k idx tr (i # rest) =
     (case py_mod (idx + i) (size_ht ht) of
        Inl e \<Rightarrow> Inl e
      | Inr pos \<Rightarrow>
          (case list_get (table ht) pos of
             Inl e \<Rightarrow> Inl e
           | Inr None \<Rightarrow> Inr (None, tr @ [(pos, None)])
           | Inr (Some slot) \<Rightarrow>
               if emp_id slot = k then Inr (Some slot, tr @ [(pos, Some slot)])
               else get_loop ht k idx (tr @ [(pos, Some slot)]) rest))"

definition get :: "hashtable \<Rightarrow> int \<Rightarrow> py_error + (employee option \<times> trace)" where
  "get ht k =
     (case hash_function ht k of
        Inl e \<Rightarrow> Inl e
      | Inr idx \<Rightarrow> get_loop ht k idx [] (py_range (size_ht ht)))"

definition flatten :: "hashtable \<Rightarrow> employee list" where
  "flatten ht = map the (filter (\<lambda>slot. slot \<noteq> None) (table ht))"

definition clear :: "hashtable \<Rightarrow> hashtable" where
  "clear ht = ht\<lparr>table := replicate (nat (size_ht ht)) None\<rparr>"

fun insert_all :: "hashtable \<Rightarrow> employee list \<Rightarrow> py_error + hashtable" where
  "insert_all ht [] = Inr ht"
| "insert_all ht (r # rs) =
     (case insert_ht ht r of
        Inl e \<Rightarrow> Inl e
      | Inr (pos, ht') \<Rightarrow> insert_all ht' rs)"

definition rebuild_hashtable_from_list :: "hashtable \<Rightarrow> employee list \<Rightarrow> py_error + hashtable" where
  "rebuild_hashtable_from_list ht records = insert_all (clear ht) records"

section \<open>Well-formed tables\<close>

text \<open>
  The constructor and \<^verbatim>\<open>clear\<close> make the slot array \<open>size\<close> long; every claim about
  a table of capacity \<open>> 0\<close> is about such a table.
\<close>

definition wf_table :: "hashtable \<Rightarrow> bool" where
  "wf_table ht \<longleftrightarrow> 0 < size_ht ht \<and> length (table ht) = nat (size_ht ht)"

section \<open>Vocabulary of the specification\<close>

text \<open>
  The probe sequence of an id: \<open>probe ht k i\<close> is the slot \<open>(hashOf k + i) mod capacity\<close>.
  A probe stops at a slot that is empty or holds a record with the id searched for.
  \<open>put ht p r\<close> is the table with slot \<open>p\<close> overwritten by \<open>r\<close> and every other slot
  unchanged.
\<close>

definition probe :: "hashtable \<Rightarrow> int \<Rightarrow> int \<Rightarrow> int" where
  "probe ht k i = (k mod size_ht ht + i) mod size_ht ht"

definition slot_at :: "hashtable \<Rightarrow> int \<Rightarrow> employee option" where
  "slot_at ht p = table ht ! nat p"

definition stops :: "hashtable \<Rightarrow> int \<Rightarrow> int \<Rightarrow> bool" where
  "stops ht k p \<longleftrightarrow> (case slot_at ht p of None \<Rightarrow> True | Some s \<Rightarrow> emp_id s = k)"

definition put :: "hashtable \<Rightarrow> int \<Rightarrow> employee \<Rightarrow> hashtable" where
  "put ht p r = ht\<lparr>table := (table ht)[nat p := Some r]\<rparr>"

text \<open>The trace entry of probe number \<open>i\<close>, and the result of a lookup that stopped at \<open>p\<close>.\<close>

definition entry :: "hashtable \<Rightarrow> int \<Rightarrow> int \<Rightarrow> int \<times> employee option" where
  "entry ht k i = (probe ht k i, slot_at ht (probe ht k i))"

definition found :: "hashtable \<Rightarrow> int \<Rightarrow> int \<Rightarrow> employee option" where
  "found ht k p =
     (case slot_at ht p of None \<Rightarrow> None | Some s \<Rightarrow> if emp_id s = k then Some s else None)"

definition occupied :: "hashtable \<Rightarrow> nat" where
  "occupied ht = length (flatten ht)"

section \<open>Reachable tables\<close>

text \<open>
  The tables reachable from an empty table by \<open>insert\<close> calls that return. \<open>probe_inv\<close>
  says that every stored record sits where a probe for its own id first stops.
\<close>

inductive reachable :: "hashtable \<Rightarrow> bool" where
  init: "reachable (HashTable_init n)"
| step: "reachable ht \<Longrightarrow> insert_ht ht r = Inr (p, ht') \<Longrightarrow> reachable ht'"

definition probe_inv :: "hashtable \<Rightarrow> bool" where
  "probe_inv ht \<longleftrightarrow>
     (\<forall>p s. 0 \<le> p \<and> p < size_ht ht \<and> slot_at ht p = Some s \<longrightarrow>
        (\<exists>i. 0 \<le> i \<and> i < size_ht ht \<and> probe ht (emp_id s) i = p
           \<and> (\<forall>j. 0 \<le> j \<and> j < i \<longrightarrow> \<not> stops ht (emp_id s) (probe ht (emp_id s) j))))"

section \<open>Sample data\<close>

definition sample_employee :: "int \<Rightarrow> employee" where
  "sample_employee k = \<lparr>emp_id = k, name = [], department = [], attendance = 0, total_days = 0,
     attendance_percentage = 0, hash_index = k mod 20\<rparr>"

definition sample_table :: hashtable where
  "sample_table = \<lparr>size_ht = 5,
     table = [None, None, Some (sample_employee 2), Some (sample_employee 7), None]\<rparr>"

definition probed_table :: hashtable where
  "probed_table = \<lparr>size_ht = 5,
     table = [None, None, Some (sample_employee 2), Some (sample_employee 7),
              Some (sample_employee 12)]\<rparr>"

definition full_table :: hashtable where
  "full_table = \<lparr>size_ht = 2, table = [Some (sample_employee 4), Some (sample_employee 1)]\<rparr>"

definition overwritten_table :: hashtable where
  "overwritten_table = \<lparr>size_ht = 2, table = [Some (sample_employee 4), Some (sample_employee 3)]\<rparr>"

definition renamed_employee :: employee where
  "renamed_employee = (sample_employee 7)\<lparr>name := ''Ann''\<rparr>"

section \<open>Characterising the probe loops\<close>

lemma list_get_in_range:
  "0 \<le> p \<Longrightarrow> p < int (length xs) \<Longrightarrow> list_get xs p = Inr (xs ! nat p)"
  by (simp add: list_get_def norm_index_def)

lemma list_set_in_range:
  "0 \<le> p \<Longrightarrow> p < int (length xs) \<Longrightarrow> list_set xs p v = Inr (xs[nat p := v])"
  by (simp add: list_set_def norm_index_def)

lemma store_in_range:
  "wf_table ht \<Longrightarrow> 0 \<le> p \<Longrightarrow> p < size_ht ht \<Longrightarrow> store ht p r = Inr (p, put ht p r)"
  by (simp add: store_def put_def wf_table_def list_set_in_range)

lemma insert_loop_find:
  assumes "wf_table ht" "0 \<le> idx" "idx < size_ht ht"
  shows "insert_loop ht r idx js =
     (case find (\<lambda>i. stops ht (emp_id r) ((idx + i) mod size_ht ht)) js of
        Some i \<Rightarrow> Inr ((idx + i) mod size_ht ht, put ht ((idx + i) mod size_ht ht) r)
      | None \<Rightarrow> Inr (idx, put ht idx r))"
proof (induction js)
  case Nil
  show ?case using assms by (simp add: store_in_range)
next
  case (Cons i js)
  let ?p = "(idx + i) mod size_ht ht"
  have sz: "0 < size_ht ht" "length (table ht) = nat (size_ht ht)"
    using assms(1) by (simp_all add: wf_table_def)
  have rng: "0 \<le> ?p" "?p < size_ht ht" using sz by simp_all
  have m: "py_mod (idx + i) (size_ht ht) = Inr ?p" using sz by (simp add: py_mod_def)
  have g: "list_get (table ht) ?p = Inr (slot_at ht ?p)"
    using rng sz by (simp add: list_get_in_range slot_at_def)
  have s: "store ht ?p r = Inr (?p, put ht ?p r)"
    using assms(1) rng by (rule store_in_range)
  show ?case
  proof (cases "slot_at ht ?p")
    case None
    then show ?thesis by (simp add: m g s stops_def)
  next
    case (Some slot)
    then show ?thesis using Cons.IH by (simp add: m g s stops_def)
  qed
qed

lemma insert_ht_find:
  assumes "wf_table ht"
  shows "insert_ht ht r =
     (case find (\<lambda>i. stops ht (emp_id r) (probe ht (emp_id r) i)) (py_range (size_ht ht)) of
        Some i \<Rightarrow> Inr (probe ht (emp_id r) i, put ht (probe ht (emp_id r) i) r)
      | None \<Rightarrow> Inr (emp_id r mod size_ht ht, put ht (emp_id r mod size_ht ht) r))"
proof -
  have sz: "0 < size_ht ht" using assms by (simp add: wf_table_def)
  have h: "hash_function ht (emp_id r) = Inr (emp_id r mod size_ht ht)"
    using sz by (simp add: hash_function_def py_mod_def)
  show ?thesis
    using insert_loop_find [OF assms, of "emp_id r mod size_ht ht" r "py_range (size_ht ht)"] sz
    by (simp add: insert_ht_def h probe_def cong: option.case_cong)
qed

lemma find_py_range_first:
  assumes "0 \<le> i" "i < n" "P i" "\<forall>j. 0 \<le> j \<and> j < i \<longrightarrow> \<not> P j"
  shows "find P (py_range n) = Some i"
proof -
  have "\<exists>m<length (py_range n). P (py_range n ! m) \<and> i = py_range n ! m
          \<and> (\<forall>j<m. \<not> P (py_range n ! j))"
  proof (intro exI [of _ "nat i"] conjI allI impI)
    show "nat i < length (py_range n)" using assms by (simp add: py_range_def)
    show "P (py_range n ! nat i)" using assms by (simp add: py_range_def)
    show "i = py_range n ! nat i" using assms by (simp add: py_range_def)
    fix j assume "j < nat i"
    then show "\<not> P (py_range n ! j)" using assms by (simp add: py_range_def)
  qed
  then show ?thesis by (simp add: find_Some_iff)
qed

lemma find_py_range_none:
  assumes "\<forall>i. 0 \<le> i \<and> i < n \<longrightarrow> \<not> P i"
  shows "find P (py_range n) = None"
  using assms by (auto simp: find_None_iff py_range_def)

lemma find_py_range_cases:
  "(\<exists>i. 0 \<le> i \<and> i < n \<and> P i \<and> (\<forall>j. 0 \<le> j \<and> j < i \<longrightarrow> \<not> P j) \<and> find P (py_range n) = Some i)
   \<or> ((\<forall>i. 0 \<le> i \<and> i < n \<longrightarrow> \<not> P i) \<and> find P (py_range n) = None)"
proof (cases "find P (py_range n)")
  case None
  then have all: "\<forall>m<nat n. \<not> P (int m)"
    by (auto simp: find_None_iff py_range_def)
  have "\<forall>i. 0 \<le> i \<and> i < n \<longrightarrow> \<not> P i"
  proof (intro allI impI)
    fix i assume i: "0 \<le> i \<and> i < n"
    then have "nat i < nat n" by simp
    with all have "\<not> P (int (nat i))" by blast
    with i show "\<not> P i" by simp
  qed
  with None show ?thesis by blast
next
  case (Some i)
  then obtain m where m: "m < length (py_range n)" "P (py_range n ! m)" "i = py_range n ! m"
      "\<forall>j<m. \<not> P (py_range n ! j)"
    by (auto simp: find_Some_iff)
  have mi: "i = int m" "m < nat n" using m(1,3) by (simp_all add: py_range_def)
  have "\<forall>j. 0 \<le> j \<and> j < i \<longrightarrow> \<not> P j"
  proof (intro allI impI)
    fix j assume j: "0 \<le> j \<and> j < i"
    then have "nat j < m" using mi by linarith
    with m(4) have "\<not> P (py_range n ! nat j)" by blast
    moreover have "py_range n ! nat j = j"
    proof -
      have "nat j < nat n" using j mi by linarith
      then have "py_range n ! nat j = int (nat j)" by (simp add: py_range_def)
      then show ?thesis using j by simp
    qed
    ultimately show "\<not> P j" by simp
  qed
  moreover have "0 \<le> i" "i < n" "P i" using mi m(2,3) by auto
  ultimately show ?thesis using Some by blast
qed

lemma probe_range: "0 < size_ht ht \<Longrightarrow> 0 \<le> probe ht k i \<and> probe ht k i < size_ht ht"
  by (simp add: probe_def)

lemma get_loop_steps:
  assumes "wf_table ht" "0 \<le> idx" "idx < size_ht ht"
  shows "get_loop ht k idx tr js =
     Inr (case find (\<lambda>i. stops ht k ((idx + i) mod size_ht ht)) js of
            None \<Rightarrow> None | Some i \<Rightarrow> slot_at ht ((idx + i) mod size_ht ht),
          tr @ map (\<lambda>i. ((idx + i) mod size_ht ht, slot_at ht ((idx + i) mod size_ht ht)))
                 (take (Suc (length (takeWhile (\<lambda>i. \<not> stops ht k ((idx + i) mod size_ht ht)) js))) js))"
proof (induction js arbitrary: tr)
  case Nil
  show ?case by simp
next
  case (Cons i js)
  let ?p = "(idx + i) mod size_ht ht"
  have sz: "0 < size_ht ht" "length (table ht) = nat (size_ht ht)"
    using assms(1) by (simp_all add: wf_table_def)
  have rng: "0 \<le> ?p" "?p < size_ht ht" using sz by simp_all
  have m: "py_mod (idx + i) (size_ht ht) = Inr ?p" using sz by (simp add: py_mod_def)
  have g: "list_get (table ht) ?p = Inr (slot_at ht ?p)"
    using rng sz by (simp add: list_get_in_range slot_at_def)
  show ?case
  proof (cases "slot_at ht ?p")
    case None
    then show ?thesis by (simp add: m g stops_def)
  next
    case (Some slot)
    show ?thesis
    proof (cases "emp_id slot = k")
      case True
      with Some show ?thesis by (simp add: m g stops_def)
    next
      case False
      with Some show ?thesis by (simp add: m g stops_def Cons.IH)
    qed
  qed
qed

lemma take_py_range:
  "0 \<le> m \<Longrightarrow> m \<le> n \<Longrightarrow> take (nat m) (py_range n) = py_range m"
  by (simp add: py_range_def take_map min_def)

lemma length_py_range [simp]: "length (py_range n) = nat n"
  by (simp add: py_range_def)

lemma py_range_nth: "0 \<le> j \<Longrightarrow> j < n \<Longrightarrow> py_range n ! nat j = j"
proof -
  assume j: "0 \<le> j" "j < n"
  then have "nat j < nat n" by linarith
  then have "py_range n ! nat j = int (nat j)" by (simp add: py_range_def)
  then show ?thesis using j by simp
qed

lemma insert_ht_cases:
  assumes "wf_table ht"
  obtains (stop) i where "0 \<le> i" "i < size_ht ht"
      "stops ht (emp_id r) (probe ht (emp_id r) i)"
      "\<forall>j. 0 \<le> j \<and> j < i \<longrightarrow> \<not> stops ht (emp_id r) (probe ht (emp_id r) j)"
      "insert_ht ht r = Inr (probe ht (emp_id r) i, put ht (probe ht (emp_id r) i) r)"
  | (fallback) "\<forall>i. 0 \<le> i \<and> i < size_ht ht \<longrightarrow> \<not> stops ht (emp_id r) (probe ht (emp_id r) i)"
      "insert_ht ht r = Inr (probe ht (emp_id r) 0, put ht (probe ht (emp_id r) 0) r)"
proof -
  let ?P = "\<lambda>i. stops ht (emp_id r) (probe ht (emp_id r) i)"
  have sz: "0 < size_ht ht" using assms by (simp add: wf_table_def)
  have p0: "probe ht (emp_id r) 0 = emp_id r mod size_ht ht" by (simp add: probe_def)
  from find_py_range_cases [of "size_ht ht" ?P] show thesis
  proof (elim disjE exE conjE)
    fix i assume "0 \<le> i" "i < size_ht ht" "?P i" "\<forall>j. 0 \<le> j \<and> j < i \<longrightarrow> \<not> ?P j"
      "find ?P (py_range (size_ht ht)) = Some i"
    then show thesis using stop [of i] by (simp add: insert_ht_find [OF assms])
  next
    assume "\<forall>i. 0 \<le> i \<and> i < size_ht ht \<longrightarrow> \<not> ?P i" "find ?P (py_range (size_ht ht)) = None"
    then show thesis using fallback by (simp add: insert_ht_find [OF assms] p0)
  qed
qed

lemma length_filter_update:
  "p < length xs \<Longrightarrow>
     length (filter P (xs[p := v])) + (if P (xs ! p) then 1 else 0)
       = length (filter P xs) + (if P v then 1 else 0)"
proof (induction xs arbitrary: p)
  case Nil
  then show ?case by simp
next
  case (Cons x xs)
  show ?case
  proof (cases p)
    case 0
    then show ?thesis by simp
  next
    case (Suc q)
    with Cons.prems have "q < length xs" by simp
    from Cons.IH [OF this] show ?thesis using Suc by simp
  qed
qed

lemma occupied_put:
  assumes "wf_table ht" "0 \<le> p" "p < size_ht ht"
  shows "occupied (put ht p r) = (if slot_at ht p = None then occupied ht + 1 else occupied ht)"
proof -
  have len: "nat p < length (table ht)" using assms by (simp add: wf_table_def)
  from length_filter_update [OF len, of "\<lambda>s. s \<noteq> None" "Some r"]
  show ?thesis by (simp add: occupied_def flatten_def put_def slot_at_def split: if_splits)
qed

section \<open>The probe invariant\<close>

lemma insert_ht_at_first_stop:
  assumes "wf_table ht" "0 \<le> i" "i < size_ht ht"
    "stops ht (emp_id r) (probe ht (emp_id r) i)"
    "\<forall>j. 0 \<le> j \<and> j < i \<longrightarrow> \<not> stops ht (emp_id r) (probe ht (emp_id r) j)"
  shows "insert_ht ht r = Inr (probe ht (emp_id r) i, put ht (probe ht (emp_id r) i) r)"
proof -
  have "find (\<lambda>i. stops ht (emp_id r) (probe ht (emp_id r) i)) (py_range (size_ht ht)) = Some i"
    using assms(2-5) by (intro find_py_range_first) auto
  then show ?thesis by (simp add: insert_ht_find [OF assms(1)])
qed

lemma size_put [simp]: "size_ht (put ht p r) = size_ht ht"
  by (simp add: put_def)

lemma probe_put [simp]: "probe (put ht p r) k i = probe ht k i"
  by (simp add: probe_def)

lemma wf_put: "wf_table ht \<Longrightarrow> wf_table (put ht p r)"
  by (simp add: wf_table_def put_def)

lemma slot_at_put:
  assumes "wf_table ht" "0 \<le> p" "p < size_ht ht" "0 \<le> q"
  shows "slot_at (put ht p r) q = (if q = p then Some r else slot_at ht q)"
proof -
  have len: "nat p < length (table ht)" using assms by (simp add: wf_table_def)
  show ?thesis
  proof (cases "q = p")
    case True
    then show ?thesis using len by (simp add: slot_at_def put_def)
  next
    case False
    then have "nat p \<noteq> nat q" using assms by auto
    then show ?thesis using False by (simp add: slot_at_def put_def)
  qed
qed

lemma stops_put:
  assumes "wf_table ht" "0 \<le> p" "p < size_ht ht" "0 \<le> q"
  shows "stops (put ht p r) k q = (if q = p then emp_id r = k else stops ht k q)"
  by (simp add: stops_def slot_at_put [OF assms])

lemma probe_surj:
  assumes "0 < size_ht ht" "0 \<le> p" "p < size_ht ht"
  shows "\<exists>i. 0 \<le> i \<and> i < size_ht ht \<and> probe ht k i = p"
proof (intro exI [of _ "(p - k) mod size_ht ht"] conjI)
  show "0 \<le> (p - k) mod size_ht ht" "(p - k) mod size_ht ht < size_ht ht"
    using assms by simp_all
  have "(k mod size_ht ht + (p - k) mod size_ht ht) mod size_ht ht = (k + (p - k)) mod size_ht ht"
    by (simp add: mod_add_eq)
  also have "\<dots> = p" using assms by simp
  finally show "probe ht k ((p - k) mod size_ht ht) = p" by (simp add: probe_def)
qed

lemma probe_inv_put:
  assumes wf: "wf_table ht" and inv: "probe_inv ht"
    and i0: "0 \<le> i0" "i0 < size_ht ht"
    and before: "\<forall>j. 0 \<le> j \<and> j < i0 \<longrightarrow>
        \<not> stops ht (emp_id r) (probe ht (emp_id r) j) \<and> probe ht (emp_id r) j \<noteq> probe ht (emp_id r) i0"
    and others: "\<forall>q t. 0 \<le> q \<and> q < size_ht ht \<and> slot_at ht q = Some t
        \<and> \<not> stops ht (emp_id t) (probe ht (emp_id r) i0) \<longrightarrow> emp_id t \<noteq> emp_id r"
  shows "probe_inv (put ht (probe ht (emp_id r) i0) r)"
proof -
  let ?k = "emp_id r"
  let ?pos = "probe ht ?k i0"
  let ?ht' = "put ht ?pos r"
  have sz: "0 < size_ht ht" using wf by (simp add: wf_table_def)
  have pos: "0 \<le> ?pos" "?pos < size_ht ht" using probe_range [OF sz] by simp_all
  have pr: "0 \<le> probe ht k j" for k j using probe_range [OF sz] by simp
  have st: "stops ?ht' k q = (if q = ?pos then ?k = k else stops ht k q)" if "0 \<le> q" for k q
    using stops_put [OF wf pos that] by simp
  show ?thesis
    unfolding probe_inv_def
  proof (intro allI impI)
    fix p s
    assume a: "0 \<le> p \<and> p < size_ht ?ht' \<and> slot_at ?ht' p = Some s"
    then have p: "0 \<le> p" "p < size_ht ht" by simp_all
    have sl: "(if p = ?pos then Some r else slot_at ht p) = Some s"
      using a slot_at_put [OF wf pos p(1), of r] by simp
    show "\<exists>i. 0 \<le> i \<and> i < size_ht ?ht' \<and> probe ?ht' (emp_id s) i = p
           \<and> (\<forall>j. 0 \<le> j \<and> j < i \<longrightarrow> \<not> stops ?ht' (emp_id s) (probe ?ht' (emp_id s) j))"
    proof (cases "p = ?pos")
      case True
      with sl have s: "s = r" by simp
      have "\<forall>j. 0 \<le> j \<and> j < i0 \<longrightarrow> \<not> stops ?ht' ?k (probe ht ?k j)"
        using before by (simp add: st [OF pr])
      then show ?thesis using i0 True s by (intro exI [of _ i0]) simp
    next
      case False
      with sl have old: "slot_at ht p = Some s" by simp
      with inv p obtain i where i: "0 \<le> i" "i < size_ht ht" "probe ht (emp_id s) i = p"
          "\<forall>j. 0 \<le> j \<and> j < i \<longrightarrow> \<not> stops ht (emp_id s) (probe ht (emp_id s) j)"
        unfolding probe_inv_def by blast
      have "\<not> stops ?ht' (emp_id s) (probe ht (emp_id s) j)" if j: "0 \<le> j \<and> j < i" for j
      proof (cases "probe ht (emp_id s) j = ?pos")
        case True
        from i(4) j have "\<not> stops ht (emp_id s) ?pos" using True by metis
        with others p old have "emp_id s \<noteq> ?k" by blast
        then show ?thesis using True by (simp add: st [OF pos(1)])
      next
        case False
        then show ?thesis using i(4) j by (simp add: st [OF pr])
      qed
      then show ?thesis using i by (intro exI [of _ i]) simp
    qed
  qed
qed

lemma probe_inv_insert:
  assumes wf: "wf_table ht" and inv: "probe_inv ht" and ins: "insert_ht ht r = Inr (p, ht')"
  shows "wf_table ht' \<and> probe_inv ht'"
proof (rule insert_ht_cases [OF wf, of r])
  fix i
  assume stop: "0 \<le> i" "i < size_ht ht"
      "stops ht (emp_id r) (probe ht (emp_id r) i)"
      "\<forall>j. 0 \<le> j \<and> j < i \<longrightarrow> \<not> stops ht (emp_id r) (probe ht (emp_id r) j)"
      "insert_ht ht r = Inr (probe ht (emp_id r) i, put ht (probe ht (emp_id r) i) r)"
  have "Inr (p, ht') = insert_ht ht r" using ins by simp
  also note stop(5)
  finally have eq: "ht' = put ht (probe ht (emp_id r) i) r" by simp
  have before: "\<forall>j. 0 \<le> j \<and> j < i \<longrightarrow>
        \<not> stops ht (emp_id r) (probe ht (emp_id r) j) \<and> probe ht (emp_id r) j \<noteq> probe ht (emp_id r) i"
    using stop(3,4) by metis
  have others: "\<forall>q t. 0 \<le> q \<and> q < size_ht ht \<and> slot_at ht q = Some t
        \<and> \<not> stops ht (emp_id t) (probe ht (emp_id r) i) \<longrightarrow> emp_id t \<noteq> emp_id r"
    using stop(3) by (auto simp: stops_def split: option.splits)
  show ?thesis
    unfolding eq using probe_inv_put [OF wf inv stop(1,2) before others] wf_put [OF wf] by simp
next
  assume fb: "\<forall>i. 0 \<le> i \<and> i < size_ht ht \<longrightarrow> \<not> stops ht (emp_id r) (probe ht (emp_id r) i)"
      "insert_ht ht r = Inr (probe ht (emp_id r) 0, put ht (probe ht (emp_id r) 0) r)"
  have sz: "0 < size_ht ht" using wf by (simp add: wf_table_def)
  have "Inr (p, ht') = insert_ht ht r" using ins by simp
  also note fb(2)
  finally have eq: "ht' = put ht (probe ht (emp_id r) 0) r" by simp
  have before: "\<forall>j. 0 \<le> j \<and> j < (0::int) \<longrightarrow>
        \<not> stops ht (emp_id r) (probe ht (emp_id r) j) \<and> probe ht (emp_id r) j \<noteq> probe ht (emp_id r) 0"
    by simp
  have others: "\<forall>q t. 0 \<le> q \<and> q < size_ht ht \<and> slot_at ht q = Some t
        \<and> \<not> stops ht (emp_id t) (probe ht (emp_id r) 0) \<longrightarrow> emp_id t \<noteq> emp_id r"
  proof (intro allI impI)
    fix q t
    assume a: "0 \<le> q \<and> q < size_ht ht \<and> slot_at ht q = Some t
        \<and> \<not> stops ht (emp_id t) (probe ht (emp_id r) 0)"
    then obtain i where "0 \<le> i" "i < size_ht ht" "probe ht (emp_id r) i = q"
      using probe_surj [OF sz, of q "emp_id r"] by blast
    with fb(1) have "\<not> stops ht (emp_id r) q" by blast
    with a show "emp_id t \<noteq> emp_id r" by (auto simp: stops_def)
  qed
  have z: "(0::int) \<le> 0" by simp
  show ?thesis
    unfolding eq using probe_inv_put [OF wf inv z sz before others] wf_put [OF wf] by simp
qed

lemma norm_index_empty: "norm_index 0 i = Inl IndexError"
  by (auto simp: norm_index_def)

lemma insert_loop_empty_table:
  assumes "table ht = []"
  shows "\<exists>e. insert_loop ht r idx js = Inl e"
proof (cases js)
  case Nil
  then show ?thesis using assms by (simp add: store_def list_set_def norm_index_empty)
next
  case (Cons i rest)
  show ?thesis
  proof (cases "py_mod (idx + i) (size_ht ht)")
    case (Inl e)
    then show ?thesis using Cons by simp
  next
    case (Inr pos)
    then show ?thesis using Cons assms by (simp add: list_get_def norm_index_empty)
  qed
qed

lemma insert_ht_empty_table:
  assumes "table ht = []"
  shows "\<exists>e. insert_ht ht r = Inl e"
proof (cases "hash_function ht (emp_id r)")
  case (Inl e)
  then show ?thesis by (simp add: insert_ht_def)
next
  case (Inr idx)
  then show ?thesis using insert_loop_empty_table [OF assms] by (simp add: insert_ht_def)
qed

lemma probe_inv_init:
  assumes "0 < n"
  shows "wf_table (HashTable_init n) \<and> probe_inv (HashTable_init n)"
proof -
  have "slot_at (HashTable_init n) p = None" if "0 \<le> p" "p < n" for p
  proof -
    have "nat p < nat n" using that by linarith
    then show ?thesis by (simp add: slot_at_def HashTable_init_def)
  qed
  moreover have "size_ht (HashTable_init n) = n" by (simp add: HashTable_init_def)
  ultimately have "probe_inv (HashTable_init n)" unfolding probe_inv_def by fastforce
  moreover have "wf_table (HashTable_init n)"
    using assms by (simp add: wf_table_def HashTable_init_def)
  ultimately show ?thesis by simp
qed

lemma reachable_inv:
  assumes "reachable ht"
  shows "table ht = [] \<or> (wf_table ht \<and> probe_inv ht)"
  using assms
proof (induction rule: reachable.induct)
  case (init n)
  show ?case
  proof (cases "0 < n")
    case True
    then show ?thesis using probe_inv_init by blast
  next
    case False
    then show ?thesis by (simp add: HashTable_init_def)
  qed
next
  case (step ht r p ht')
  from step.IH show ?case
  proof
    assume "table ht = []"
    then show ?thesis using insert_ht_empty_table [of ht r] step.hyps(2) by auto
  next
    assume "wf_table ht \<and> probe_inv ht"
    then show ?thesis using probe_inv_insert [OF _ _ step.hyps(2)] by blast
  qed
qed

lemma probe_inv_unique:
  assumes wf: "wf_table ht" and inv: "probe_inv ht"
    and p: "0 \<le> p" "p < size_ht ht" "slot_at ht p = Some s"
    and q: "0 \<le> q" "q < size_ht ht" "slot_at ht q = Some t"
    and same: "emp_id s = emp_id t"
  shows "p = q"
proof -
  let ?k = "emp_id s"
  from inv p obtain i where i: "0 \<le> i" "probe ht ?k i = p"
      "\<forall>j. 0 \<le> j \<and> j < i \<longrightarrow> \<not> stops ht ?k (probe ht ?k j)"
    unfolding probe_inv_def by blast
  from inv q same obtain i' where i': "0 \<le> i'" "probe ht ?k i' = q"
      "\<forall>j. 0 \<le> j \<and> j < i' \<longrightarrow> \<not> stops ht ?k (probe ht ?k j)"
    unfolding probe_inv_def by metis
  have sp: "stops ht ?k (probe ht ?k i)" using i(2) p(3) by (simp add: stops_def)
  have sq: "stops ht ?k (probe ht ?k i')" using i'(2) q(3) same by (simp add: stops_def)
  have "\<not> i < i'" using i(1) i'(3) sp by blast
  moreover have "\<not> i' < i" using i'(1) i(3) sq by blast
  ultimately have "i = i'" by simp
  then show ?thesis using i(2) i'(2) by simp
qed

lemma reachable_sample_table: "reachable sample_table"
proof -
  have "reachable (HashTable_init 5)" by (rule reachable.init)
  moreover have "insert_ht (HashTable_init 5) (sample_employee 2)
      = Inr (2, \<lparr>size_ht = 5, table = [None, None, Some (sample_employee 2), None, None]\<rparr>)"
    by code_simp
  ultimately have "reachable \<lparr>size_ht = 5, table = [None, None, Some (sample_employee 2), None, None]\<rparr>"
    by (rule reachable.step)
  moreover have "insert_ht \<lparr>size_ht = 5, table = [None, None, Some (sample_employee 2), None, None]\<rparr>
      (sample_employee 7) = Inr (3, sample_table)"
    by code_simp
  ultimately show ?thesis by (rule reachable.step)
qed

lemma reachable_probed_table: "reachable probed_table"
proof -
  have "insert_ht sample_table (sample_employee 12) = Inr (4, probed_table)"
    by code_simp
  with reachable_sample_table show ?thesis by (rule reachable.step)
qed

lemma reachable_full_table: "reachable full_table"
proof -
  have "reachable (HashTable_init 2)" by (rule reachable.init)
  moreover have "insert_ht (HashTable_init 2) (sample_employee 4)
      = Inr (0, \<lparr>size_ht = 2, table = [Some (sample_employee 4), None]\<rparr>)"
    by code_simp
  ultimately have "reachable \<lparr>size_ht = 2, table = [Some (sample_employee 4), None]\<rparr>"
    by (rule reachable.step)
  moreover have "insert_ht \<lparr>size_ht = 2, table = [Some (sample_employee 4), None]\<rparr>
      (sample_employee 1) = Inr (1, full_table)"
    by code_simp
  ultimately show ?thesis by (rule reachable.step)
qed

lemma reachable_overwritten_table: "reachable overwritten_table"
proof -
  have "insert_ht full_table (sample_employee 3) = Inr (1, overwritten_table)"
    by code_simp
  with reachable_full_table show ?thesis by (rule reachable.step)
qed

section \<open>The hash function\<close>

text \<open>
  C8. For every capacity \<open>> 0\<close> and every integer id, negative ones included,
  \<open>hash_function\<close> returns \<open>id mod capacity\<close>, the non-negative remainder, and the
  result lies in \<open>[0, capacity)\<close>.
\<close>

theorem hash_function_range:
  assumes "0 < size_ht ht"
  shows "\<exists>h. hash_function ht k = Inr h \<and> h = k mod size_ht ht \<and> 0 \<le> h \<and> h < size_ht ht
           \<and> (\<exists>q. k = q * size_ht ht + h)"
proof -
  have "hash_function ht k = Inr (k mod size_ht ht)"
    using assms by (simp add: hash_function_def py_mod_def)
  moreover have "0 \<le> k mod size_ht ht" "k mod size_ht ht < size_ht ht"
    using assms by simp_all
  moreover have "k = (k div size_ht ht) * size_ht ht + k mod size_ht ht"
    by simp
  ultimately show ?thesis by blast
qed

theorem hash_function_range_witness:
  "(0::int) < size_ht (HashTable_init 20)
     \<and> hash_function (HashTable_init 20) (- 3) = Inr 17
     \<and> hash_function (HashTable_init 20) 47 = Inr 7"
  using hash_function_range [of "HashTable_init 20" "- 3"]
    hash_function_range [of "HashTable_init 20" 47]
  by (simp add: HashTable_init_def)

section \<open>Insertion\<close>

text \<open>
  C1. For every table of capacity \<open>> 0\<close> and every record, \<open>insert\<close> probes the slots
  \<open>(hashOf id + i) mod capacity\<close> for \<open>i = 0 .. capacity - 1\<close>. At the first probed slot
  that is empty or holds a record with the same id, it writes the record into that slot
  (placing it in the empty slot, or overwriting the record of the same id in place) and
  returns that index. When all \<open>capacity\<close> probed slots hold records with other ids, it
  overwrites the slot at the original hash index and returns that index.
\<close>

theorem insert_linear_probing:
  assumes "wf_table ht"
  shows "(\<forall>i. 0 \<le> i \<and> i < size_ht ht
            \<and> stops ht (emp_id r) (probe ht (emp_id r) i)
            \<and> (\<forall>j. 0 \<le> j \<and> j < i \<longrightarrow> \<not> stops ht (emp_id r) (probe ht (emp_id r) j))
          \<longrightarrow> insert_ht ht r = Inr (probe ht (emp_id r) i, put ht (probe ht (emp_id r) i) r))
       \<and> ((\<forall>i. 0 \<le> i \<and> i < size_ht ht \<longrightarrow> \<not> stops ht (emp_id r) (probe ht (emp_id r) i))
          \<longrightarrow> insert_ht ht r = Inr (emp_id r mod size_ht ht, put ht (emp_id r mod size_ht ht) r))"
proof (intro conjI allI impI)
  fix i
  assume a: "0 \<le> i \<and> i < size_ht ht
            \<and> stops ht (emp_id r) (probe ht (emp_id r) i)
            \<and> (\<forall>j. 0 \<le> j \<and> j < i \<longrightarrow> \<not> stops ht (emp_id r) (probe ht (emp_id r) j))"
  have "find (\<lambda>i. stops ht (emp_id r) (probe ht (emp_id r) i)) (py_range (size_ht ht)) = Some i"
    using a by (intro find_py_range_first) auto
  then show "insert_ht ht r = Inr (probe ht (emp_id r) i, put ht (probe ht (emp_id r) i) r)"
    by (simp add: insert_ht_find [OF assms])
next
  assume "\<forall>i. 0 \<le> i \<and> i < size_ht ht \<longrightarrow> \<not> stops ht (emp_id r) (probe ht (emp_id r) i)"
  then have "find (\<lambda>i. stops ht (emp_id r) (probe ht (emp_id r) i)) (py_range (size_ht ht)) = None"
    by (rule find_py_range_none)
  then show "insert_ht ht r = Inr (emp_id r mod size_ht ht, put ht (emp_id r mod size_ht ht) r)"
    by (simp add: insert_ht_find [OF assms])
qed

theorem insert_linear_probing_witness:
  "wf_table sample_table
   \<and> insert_ht sample_table (sample_employee 12) = Inr (4, put sample_table 4 (sample_employee 12))
   \<and> wf_table full_table
   \<and> insert_ht full_table (sample_employee 3) = Inr (1, put full_table 1 (sample_employee 3))"
proof -
  have wf1: "wf_table sample_table" by (simp add: wf_table_def sample_table_def)
  have wf2: "wf_table full_table" by (simp add: wf_table_def full_table_def)
  have two: "j = 0 \<or> j = 1" if "0 \<le> j \<and> j < 2" for j :: int
    using that by auto
  have st: "stops sample_table 12 (probe sample_table 12 2)"
    by (simp add: stops_def probe_def slot_at_def sample_table_def)
  have ns: "\<forall>j. 0 \<le> j \<and> j < 2 \<longrightarrow> \<not> stops sample_table 12 (probe sample_table 12 j)"
  proof (intro allI impI)
    fix j :: int assume "0 \<le> j \<and> j < 2"
    then have "j = 0 \<or> j = 1" by (rule two)
    then show "\<not> stops sample_table 12 (probe sample_table 12 j)"
      by (elim disjE)
        (simp_all add: stops_def probe_def slot_at_def sample_table_def sample_employee_def)
  qed
  have "0 \<le> (2::int) \<and> 2 < size_ht sample_table
      \<and> stops sample_table (emp_id (sample_employee 12)) (probe sample_table (emp_id (sample_employee 12)) 2)
      \<and> (\<forall>j. 0 \<le> j \<and> j < 2 \<longrightarrow>
            \<not> stops sample_table (emp_id (sample_employee 12)) (probe sample_table (emp_id (sample_employee 12)) j))"
    using st ns by (simp add: sample_employee_def sample_table_def)
  with insert_linear_probing [OF wf1, of "sample_employee 12"]
  have "insert_ht sample_table (sample_employee 12)
      = Inr (probe sample_table (emp_id (sample_employee 12)) 2,
             put sample_table (probe sample_table (emp_id (sample_employee 12)) 2) (sample_employee 12))"
    by blast
  then have a: "insert_ht sample_table (sample_employee 12)
      = Inr (4, put sample_table 4 (sample_employee 12))"
    by (simp add: probe_def sample_employee_def sample_table_def)
  have "\<forall>i. 0 \<le> i \<and> i < size_ht full_table \<longrightarrow>
      \<not> stops full_table (emp_id (sample_employee 3)) (probe full_table (emp_id (sample_employee 3)) i)"
  proof (intro allI impI)
    fix i :: int assume "0 \<le> i \<and> i < size_ht full_table"
    then have "i = 0 \<or> i = 1" using two [of i] by (simp add: full_table_def)
    then show "\<not> stops full_table (emp_id (sample_employee 3))
        (probe full_table (emp_id (sample_employee 3)) i)"
      by (elim disjE)
        (simp_all add: stops_def probe_def slot_at_def full_table_def sample_employee_def)
  qed
  with insert_linear_probing [OF wf2, of "sample_employee 3"]
  have "insert_ht full_table (sample_employee 3)
      = Inr (emp_id (sample_employee 3) mod size_ht full_table,
             put full_table (emp_id (sample_employee 3) mod size_ht full_table) (sample_employee 3))"
    by blast
  then have b: "insert_ht full_table (sample_employee 3)
      = Inr (1, put full_table 1 (sample_employee 3))"
    by (simp add: sample_employee_def full_table_def)
  show ?thesis using wf1 wf2 a b by simp
qed

section \<open>Lookup\<close>

text \<open>
  C3. For every table of capacity \<open>> 0\<close> and every id, \<open>get\<close> visits the slots
  \<open>(hashOf id + i) mod capacity\<close> in increasing \<open>i\<close> and stops at the first slot that is
  empty or holds a record with that id (after \<open>capacity\<close> probes when there is none).
  With \<open>m\<close> the number of slots visited, the trace is the list of the pairs
  (index visited, slot contents) for \<open>i = 0 .. m - 1\<close>, and the result is the record of
  the last slot visited when that slot holds the id, and not-found otherwise.
\<close>

theorem get_probe_trace:
  assumes "wf_table ht"
  shows "\<exists>m. 1 \<le> m \<and> m \<le> size_ht ht
      \<and> get ht k = Inr (found ht k (probe ht k (m - 1)), map (entry ht k) (py_range m))
      \<and> (\<forall>j. 0 \<le> j \<and> j < m - 1 \<longrightarrow> \<not> stops ht k (probe ht k j))
      \<and> (stops ht k (probe ht k (m - 1)) \<or> m = size_ht ht)"
proof -
  let ?P = "\<lambda>i. stops ht k (probe ht k i)"
  let ?n = "size_ht ht"
  have sz: "0 < ?n" using assms by (simp add: wf_table_def)
  have h: "hash_function ht k = Inr (k mod ?n)"
    using sz by (simp add: hash_function_def py_mod_def)
  have hr: "0 \<le> k mod ?n" "k mod ?n < ?n" using sz by simp_all
  have g: "get ht k =
     Inr (case find ?P (py_range ?n) of None \<Rightarrow> None | Some i \<Rightarrow> slot_at ht (probe ht k i),
          map (entry ht k) (take (Suc (length (takeWhile (\<lambda>i. \<not> ?P i) (py_range ?n)))) (py_range ?n)))"
    using get_loop_steps [OF assms hr, of k "[]" "py_range ?n"]
    by (simp add: get_def h probe_def entry_def cong: option.case_cong)
  from find_py_range_cases [of ?n ?P] show ?thesis
  proof (elim disjE exE conjE)
    fix i
    assume i: "0 \<le> i" "i < ?n" "?P i" "\<forall>j. 0 \<le> j \<and> j < i \<longrightarrow> \<not> ?P j"
      and f: "find ?P (py_range ?n) = Some i"
    have tw: "takeWhile (\<lambda>i. \<not> ?P i) (py_range ?n) = py_range i"
    proof -
      have "py_range ?n = py_range i @ i # map int [Suc (nat i)..<nat ?n]"
      proof -
        have lt: "nat i < nat ?n" using i by linarith
        have "[0..<nat i + (nat ?n - nat i)] = [0..<nat i] @ [nat i..<nat i + (nat ?n - nat i)]"
          by (rule upt_add_eq_append) simp
        moreover have "nat i + (nat ?n - nat i) = nat ?n" using lt by linarith
        ultimately have "[0..<nat ?n] = [0..<nat i] @ [nat i..<nat ?n]" by simp
        moreover have "[nat i..<nat ?n] = nat i # [Suc (nat i)..<nat ?n]"
          using lt by (rule upt_conv_Cons)
        ultimately have "[0..<nat ?n] = [0..<nat i] @ nat i # [Suc (nat i)..<nat ?n]"
          by simp
        then show ?thesis using i by (simp add: py_range_def)
      qed
      moreover have "\<forall>x\<in>set (py_range i). \<not> ?P x"
        using i(4) by (auto simp: py_range_def)
      ultimately show ?thesis using i(3) by (simp add: takeWhile_append2)
    qed
    have tk: "take (Suc (nat i)) (py_range ?n) = py_range (i + 1)"
      using take_py_range [of "i + 1" ?n] i by (simp add: nat_add_distrib)
    have fd: "slot_at ht (probe ht k i) = found ht k (probe ht k i)"
      using i(3) by (auto simp: found_def stops_def split: option.splits)
    have "get ht k = Inr (found ht k (probe ht k i), map (entry ht k) (py_range (i + 1)))"
      by (simp add: g f tw tk fd)
    then show ?thesis using i
      by (intro exI [of _ "i + 1"]) simp
  next
    assume n: "\<forall>i. 0 \<le> i \<and> i < ?n \<longrightarrow> \<not> ?P i" and f: "find ?P (py_range ?n) = None"
    have "\<forall>x\<in>set (py_range ?n). \<not> ?P x"
      using n by (auto simp: py_range_def)
    then have tw: "takeWhile (\<lambda>i. \<not> ?P i) (py_range ?n) = py_range ?n"
      by (simp add: takeWhile_eq_all_conv)
    have "\<not> ?P (?n - 1)" using n sz by simp
    then have fd: "found ht k (probe ht k (?n - 1)) = None"
      by (auto simp: found_def stops_def split: option.splits)
    have "get ht k = Inr (found ht k (probe ht k (?n - 1)), map (entry ht k) (py_range ?n))"
      by (simp add: g f tw fd)
    then show ?thesis using n sz
      by (intro exI [of _ ?n]) simp
  qed
qed

theorem get_probe_trace_witness:
  "wf_table probed_table
   \<and> get probed_table 12 = Inr (Some (sample_employee 12),
        [(2, Some (sample_employee 2)), (3, Some (sample_employee 7)), (4, Some (sample_employee 12))])
   \<and> get sample_table 12 = Inr (None,
        [(2, Some (sample_employee 2)), (3, Some (sample_employee 7)), (4, None)])"
proof -
  have wf: "wf_table probed_table" by (simp add: wf_table_def probed_table_def)
  have "get probed_table 12 = Inr (Some (sample_employee 12),
        [(2, Some (sample_employee 2)), (3, Some (sample_employee 7)), (4, Some (sample_employee 12))])"
    using get_probe_trace [OF wf, of 12]
    by (simp add: get_def hash_function_def py_mod_def py_range_def probed_table_def
        sample_employee_def list_get_def norm_index_def upt_rec)
  moreover have "get sample_table 12 = Inr (None,
        [(2, Some (sample_employee 2)), (3, Some (sample_employee 7)), (4, None)])"
    by (simp add: get_def hash_function_def py_mod_def py_range_def sample_table_def
        sample_employee_def list_get_def norm_index_def upt_rec)
  ultimately show ?thesis using wf by simp
qed

section \<open>Occupied slots\<close>

text \<open>
  C10. For every table of capacity \<open>> 0\<close> and every record, one \<open>insert\<close> call never
  decreases the number of occupied slots and increases it by at most one: it grows by one
  when the record goes into an empty slot and stays the same when an occupied slot is
  overwritten. In particular the replace-on-duplicate path (the slot written held the
  same id) and the full-table fallback (no probe stopped) leave the count unchanged.
\<close>

theorem insert_occupied_count:
  assumes "wf_table ht"
  shows "\<exists>p ht'. insert_ht ht r = Inr (p, ht')
      \<and> occupied ht \<le> occupied ht' \<and> occupied ht' \<le> occupied ht + 1
      \<and> (slot_at ht p = None \<longrightarrow> occupied ht' = occupied ht + 1)
      \<and> (slot_at ht p \<noteq> None \<longrightarrow> occupied ht' = occupied ht)
      \<and> ((\<exists>s. slot_at ht p = Some s \<and> emp_id s = emp_id r) \<longrightarrow> occupied ht' = occupied ht)
      \<and> ((\<forall>i. 0 \<le> i \<and> i < size_ht ht \<longrightarrow> \<not> stops ht (emp_id r) (probe ht (emp_id r) i))
            \<longrightarrow> p = emp_id r mod size_ht ht \<and> occupied ht' = occupied ht)"
proof -
  have sz: "0 < size_ht ht" using assms by (simp add: wf_table_def)
  show ?thesis
  proof (rule insert_ht_cases [OF assms, of r])
    fix i
    assume stop: "0 \<le> i" "i < size_ht ht"
      "stops ht (emp_id r) (probe ht (emp_id r) i)"
      "\<forall>j. 0 \<le> j \<and> j < i \<longrightarrow> \<not> stops ht (emp_id r) (probe ht (emp_id r) j)"
      "insert_ht ht r = Inr (probe ht (emp_id r) i, put ht (probe ht (emp_id r) i) r)"
    let ?p = "probe ht (emp_id r) i"
    have rng: "0 \<le> ?p" "?p < size_ht ht" using probe_range [OF sz] by simp_all
    have occ: "occupied (put ht ?p r) = (if slot_at ht ?p = None then occupied ht + 1 else occupied ht)"
      using assms rng by (rule occupied_put)
    have nofb: "\<not> (\<forall>i. 0 \<le> i \<and> i < size_ht ht \<longrightarrow> \<not> stops ht (emp_id r) (probe ht (emp_id r) i))"
      using stop(1-3) by blast
    show ?thesis
      by (intro exI [of _ ?p] exI [of _ "put ht ?p r"]) (simp add: stop(5) occ nofb)
  next
    assume fallback:
      "\<forall>i. 0 \<le> i \<and> i < size_ht ht \<longrightarrow> \<not> stops ht (emp_id r) (probe ht (emp_id r) i)"
      "insert_ht ht r = Inr (probe ht (emp_id r) 0, put ht (probe ht (emp_id r) 0) r)"
    let ?p = "probe ht (emp_id r) 0"
    have rng: "0 \<le> ?p" "?p < size_ht ht" using probe_range [OF sz] by simp_all
    have "\<not> stops ht (emp_id r) ?p" using fallback(1) sz by simp
    then have full: "slot_at ht ?p \<noteq> None" by (auto simp: stops_def split: option.splits)
    have occ: "occupied (put ht ?p r) = occupied ht"
      using occupied_put [OF assms rng, of r] full by simp
    have p0: "?p = emp_id r mod size_ht ht" by (simp add: probe_def)
    show ?thesis
      by (intro exI [of _ ?p] exI [of _ "put ht ?p r"]) (simp add: fallback(2) occ full p0 [symmetric])
  qed
qed

theorem insert_occupied_count_witness:
  "wf_table sample_table \<and> wf_table full_table \<and> wf_table probed_table
   \<and> occupied sample_table = 2
   \<and> (\<exists>ht'. insert_ht sample_table (sample_employee 12) = Inr (4, ht') \<and> occupied ht' = 3)
   \<and> occupied full_table = 2
   \<and> (\<exists>ht'. insert_ht full_table (sample_employee 3) = Inr (1, ht') \<and> occupied ht' = 2)
   \<and> occupied probed_table = 3
   \<and> (\<exists>ht'. insert_ht probed_table (sample_employee 7) = Inr (3, ht') \<and> occupied ht' = 3)"
  using insert_occupied_count [of sample_table "sample_employee 12"]
    insert_occupied_count [of full_table "sample_employee 3"]
    insert_occupied_count [of probed_table "sample_employee 7"]
  by (simp add: wf_table_def sample_table_def full_table_def probed_table_def sample_employee_def
      occupied_def flatten_def insert_ht_def hash_function_def py_mod_def py_range_def
      list_get_def list_set_def norm_index_def store_def upt_rec)

section \<open>Uniqueness of ids\<close>

text \<open>
  C2. In every table reachable from the empty table by any sequence of \<open>insert\<close> calls,
  no two distinct occupied slots hold records with equal id; this holds also after the
  full-table fallback has overwritten a slot.
\<close>

theorem reachable_unique_ids:
  assumes "reachable ht"
    and "p < length (table ht)" "q < length (table ht)" "p \<noteq> q"
    and "table ht ! p = Some s" "table ht ! q = Some t"
  shows "emp_id s \<noteq> emp_id t"
proof
  assume same: "emp_id s = emp_id t"
  have ne: "table ht \<noteq> []" using assms(2) by auto
  with reachable_inv [OF assms(1)] have wf: "wf_table ht" and inv: "probe_inv ht" by auto
  have len: "int (length (table ht)) = size_ht ht" using wf by (simp add: wf_table_def)
  have "int p = int q"
  proof (rule probe_inv_unique [OF wf inv _ _ _ _ _ _ same])
    show "0 \<le> int p" "0 \<le> int q" by simp_all
    show "int p < size_ht ht" "int q < size_ht ht" using assms(2,3) len by simp_all
    show "slot_at ht (int p) = Some s" "slot_at ht (int q) = Some t"
      using assms(5,6) by (simp_all add: slot_at_def)
  qed
  then show False using assms(4) by simp
qed

theorem reachable_unique_ids_witness:
  "reachable overwritten_table
   \<and> (0::nat) < length (table overwritten_table) \<and> (1::nat) < length (table overwritten_table)
   \<and> (0::nat) \<noteq> 1
   \<and> table overwritten_table ! 0 = Some (sample_employee 4)
   \<and> table overwritten_table ! 1 = Some (sample_employee 3)
   \<and> emp_id (sample_employee 4) \<noteq> emp_id (sample_employee 3)"
proof -
  have a: "(0::nat) < length (table overwritten_table)" "(1::nat) < length (table overwritten_table)"
    "table overwritten_table ! 0 = Some (sample_employee 4)"
    "table overwritten_table ! 1 = Some (sample_employee 3)"
    by (simp_all add: overwritten_table_def)
  have "emp_id (sample_employee 4) \<noteq> emp_id (sample_employee 3)"
    by (rule reachable_unique_ids [OF reachable_overwritten_table a(1,2) _ a(3,4)]) simp
  with a reachable_overwritten_table show ?thesis by simp
qed

section \<open>Replace semantics\<close>

text \<open>
  C5. In every table reachable through \<open>insert\<close> calls that holds a record with id \<open>k\<close>
  at slot \<open>s\<close>, inserting a new record with id \<open>k\<close> returns \<open>s\<close>, leaves the number of
  occupied slots unchanged, puts the new record into slot \<open>s\<close> and leaves every other
  slot unchanged.
\<close>

theorem insert_existing_id_replaces:
  assumes "reachable ht"
    and "s < length (table ht)" "table ht ! s = Some old" "emp_id old = emp_id r"
  shows "\<exists>ht'. insert_ht ht r = Inr (int s, ht')
      \<and> occupied ht' = occupied ht
      \<and> size_ht ht' = size_ht ht \<and> length (table ht') = length (table ht)
      \<and> table ht' ! s = Some r
      \<and> (\<forall>q. q \<noteq> s \<longrightarrow> table ht' ! q = table ht ! q)"
proof -
  have ne: "table ht \<noteq> []" using assms(2) by auto
  with reachable_inv [OF assms(1)] have wf: "wf_table ht" and inv: "probe_inv ht" by auto
  have len: "int (length (table ht)) = size_ht ht" using wf by (simp add: wf_table_def)
  have s: "0 \<le> int s" "int s < size_ht ht" using assms(2) len by simp_all
  have sl: "slot_at ht (int s) = Some old" using assms(3) by (simp add: slot_at_def)
  from inv s sl obtain i where i: "0 \<le> i" "i < size_ht ht" "probe ht (emp_id old) i = int s"
      "\<forall>j. 0 \<le> j \<and> j < i \<longrightarrow> \<not> stops ht (emp_id old) (probe ht (emp_id old) j)"
    unfolding probe_inv_def by blast
  have st: "stops ht (emp_id r) (probe ht (emp_id r) i)"
    using i(3) sl assms(4) by (simp add: stops_def)
  have "insert_ht ht r = Inr (probe ht (emp_id r) i, put ht (probe ht (emp_id r) i) r)"
    using wf i(1,2) st i(4) unfolding assms(4) by (rule insert_ht_at_first_stop)
  then have ins: "insert_ht ht r = Inr (int s, put ht (int s) r)"
    using i(3) assms(4) by simp
  have occ: "occupied (put ht (int s) r) = occupied ht"
    using occupied_put [OF wf s, of r] sl by simp
  show ?thesis
    using ins occ assms(2)
    by (intro exI [of _ "put ht (int s) r"]) (simp add: put_def)
qed

theorem insert_existing_id_replaces_witness:
  "reachable probed_table
   \<and> 3 < length (table probed_table)
   \<and> table probed_table ! 3 = Some (sample_employee 7)
   \<and> emp_id (sample_employee 7) = emp_id renamed_employee
   \<and> (\<exists>ht'. insert_ht probed_table renamed_employee = Inr (3, ht')
        \<and> occupied ht' = 3 \<and> occupied probed_table = 3
        \<and> table ht' = [None, None, Some (sample_employee 2), Some renamed_employee,
             Some (sample_employee 12)])"
proof -
  have a: "3 < length (table probed_table)" "table probed_table ! 3 = Some (sample_employee 7)"
    "emp_id (sample_employee 7) = emp_id renamed_employee"
    by (simp_all add: probed_table_def renamed_employee_def)
  have len: "length (table probed_table) = 5" and occ: "occupied probed_table = 3"
    by (simp_all add: probed_table_def occupied_def flatten_def)
  from insert_existing_id_replaces [OF reachable_probed_table a]
  obtain ht' where h: "insert_ht probed_table renamed_employee = Inr (int 3, ht')"
      "occupied ht' = occupied probed_table" "length (table ht') = length (table probed_table)"
      "table ht' ! 3 = Some renamed_employee"
      "\<forall>q. q \<noteq> 3 \<longrightarrow> table ht' ! q = table probed_table ! q"
    by blast
  have "table ht' = [None, None, Some (sample_employee 2), Some renamed_employee,
             Some (sample_employee 12)]"
  proof (rule nth_equalityI)
    show "length (table ht') = length [None, None, Some (sample_employee 2), Some renamed_employee,
             Some (sample_employee 12)]"
      using h(3) len by simp
    fix i assume "i < length (table ht')"
    then have "i < 5" using h(3) len by simp
    then have "i = 0 \<or> i = 1 \<or> i = 2 \<or> i = 3 \<or> i = 4" by arith
    then show "table ht' ! i = [None, None, Some (sample_employee 2), Some renamed_employee,
             Some (sample_employee 12)] ! i"
      using h(4,5) by (elim disjE) (simp_all add: probed_table_def)
  qed
  with h(1,2) occ a reachable_probed_table show ?thesis by simp
qed

end
